theory Spec2Isabelle
  imports Main
begin

section \<open>JavaScript strings\<close>

text \<open>
  A JavaScript string is a sequence of UTF-16 code units. A code unit is modelled as a
  natural number; every string the program can receive is a list of numbers below 65536,
  and nothing below depends on that bound. \<open>js\<close> embeds an ASCII literal.
\<close>

type_synonym jsstring = "nat list"

definition js :: "string \<Rightarrow> jsstring" where
  "js s = map of_char s"

text \<open>
  \<open>WhiteSpace\<close> and \<open>LineTerminator\<close> of ECMAScript: the code units that
  \<open>String.prototype.trim\<close> strips and that \<open>\s\<close> matches.
\<close>

definition isWhite :: "nat \<Rightarrow> bool" where
  "isWhite c =
     ((9 \<le> c \<and> c \<le> 13) \<or> c = 32 \<or> c = 160 \<or> c = 5760 \<or> (8192 \<le> c \<and> c \<le> 8202)
      \<or> c = 8232 \<or> c = 8233 \<or> c = 8239 \<or> c = 8287 \<or> c = 12288 \<or> c = 65279)"

definition isDigit :: "nat \<Rightarrow> bool" where
  "isDigit c = (48 \<le> c \<and> c \<le> 57)"

text \<open>\<open>s.trim()\<close>\<close>

definition trim :: "jsstring \<Rightarrow> jsstring" where
  "trim s = rev (dropWhile isWhite (rev (dropWhile isWhite s)))"

text \<open>\<open>s.split(sep)\<close> for a separator of one code unit; the result is never empty.\<close>

fun splitOn :: "nat \<Rightarrow> jsstring \<Rightarrow> jsstring list" where
  "splitOn sep [] = [[]]"
| "splitOn sep (c # cs) =
     (if c = sep then [] # splitOn sep cs
      else (case splitOn sep cs of [] \<Rightarrow> [[c]] | x # xs \<Rightarrow> (c # x) # xs))"

text \<open>
  \<open>s.split(/\s+/)\<close>: the pieces between maximal runs of white space, with an empty
  piece in front when \<open>s\<close> starts with white space and one at the end when it ends with it.
\<close>

function splitWs :: "jsstring \<Rightarrow> jsstring list" where
  "splitWs s =
     (case dropWhile (\<lambda>c. \<not> isWhite c) s of
        [] \<Rightarrow> [s]
      | w # rest \<Rightarrow> takeWhile (\<lambda>c. \<not> isWhite c) s # splitWs (dropWhile isWhite rest))"
  by pat_completeness auto
termination
proof (relation "measure length", goal_cases)
  case 1
  show ?case by simp
next
  case (2 s w rest)
  have "length (dropWhile isWhite rest) \<le> length rest"
    by (rule length_dropWhile_le)
  also have "\<dots> < length (dropWhile (\<lambda>c. \<not> isWhite c) s)"
    using 2 by simp
  also have "\<dots> \<le> length s"
    by (rule length_dropWhile_le)
  finally show ?case by simp
qed

declare splitWs.simps [simp del]

text \<open>\<open>parts.join(" ")\<close>\<close>

fun join :: "jsstring list \<Rightarrow> jsstring" where
  "join [] = []"
| "join [p] = p"
| "join (p # q # ps) = p @ 32 # join (q # ps)"

text \<open>\<open>l.includes(sub)\<close> (the name \<open>includes\<close> is taken in Isabelle)\<close>

fun startsWith :: "jsstring \<Rightarrow> jsstring \<Rightarrow> bool" where
  "startsWith s [] = True"
| "startsWith [] (p # ps) = False"
| "startsWith (c # cs) (p # ps) = (c = p \<and> startsWith cs ps)"

fun includes_js :: "jsstring \<Rightarrow> jsstring \<Rightarrow> bool" where
  "includes_js [] sub = (sub = [])"
| "includes_js (c # cs) sub = (startsWith (c # cs) sub \<or> includes_js cs sub)"

text \<open>
  \<open>l.toLowerCase()\<close>, code unit by code unit. The table holds every code point whose
  lower case has a code unit in Latin-1 (U+0130 becomes two code units); a code point whose
  lower case lies wholly beyond Latin-1 is kept as it is, which \<open>includes\<close> with a Latin-1
  argument, the only use of the result, cannot tell from its lower case.
\<close>

definition lowerUnit :: "nat \<Rightarrow> nat list" where
  "lowerUnit c =
     (if 65 \<le> c \<and> c \<le> 90 then [c + 32]
      else if 192 \<le> c \<and> c \<le> 222 \<and> c \<noteq> 215 then [c + 32]
      else if c = 304 then [105, 775]
      else if c = 376 then [255]
      else if c = 7838 then [223]
      else if c = 8490 then [107]
      else if c = 8491 then [229]
      else [c])"

definition toLowerCase :: "jsstring \<Rightarrow> jsstring" where
  "toLowerCase s = concat (map lowerUnit s)"

section \<open>Regular expressions\<close>

text \<open>
  The syntax of the five regular expression literals of \<open>parseCardText\<close>: characters,
  the classes \<open>\S\<close>, \<open>\s\<close>, \<open>\d\<close> and \<open>[...]\<close>, concatenation, alternation,
  \<open>?\<close>, and \<open>+\<close> or \<open>{n,}\<close> on a single character or class.
\<close>

datatype atom = Chr nat | NonSpace | Space | Digit | AnyOf "atom list"

datatype rx = Eps | One atom | AtLeast nat atom | Opt rx | Cat rx rx | Alt rx rx

text \<open>
  \<open>Canonicalize\<close> of a regular expression with the flag \<open>i\<close> and without \<open>u\<close>: the
  upper case of the code unit when that is one code unit, except that a code unit from 128
  on is never mapped below 128. It is exact on Latin-1 (the sharp s, U+00DF, stays, its
  upper case being two code units) and the identity beyond. The characters of the patterns
  are ASCII, U+00E4, U+00FC and U+00DF, and no code unit beyond Latin-1 has the canonical
  form of one of them, so no pattern can tell the identity from the upper case there.
\<close>

definition canonicalize :: "nat \<Rightarrow> nat" where
  "canonicalize c =
     (if 97 \<le> c \<and> c \<le> 122 then c - 32
      else if 224 \<le> c \<and> c \<le> 254 \<and> c \<noteq> 247 then c - 32
      else if c = 181 then 924
      else if c = 255 then 376
      else c)"

fun atom_matches :: "bool \<Rightarrow> atom \<Rightarrow> nat \<Rightarrow> bool" where
  "atom_matches ic (Chr p) c = (if ic then canonicalize c = canonicalize p else c = p)"
| "atom_matches ic NonSpace c = (\<not> isWhite c)"
| "atom_matches ic Space c = isWhite c"
| "atom_matches ic Digit c = isDigit c"
| "atom_matches ic (AnyOf as) c = list_ex (\<lambda>a. atom_matches ic a c) as"

text \<open>
  \<open>atLeast P n s\<close>: what is left of \<open>s\<close> after \<open>n\<close> or more leading code units that
  satisfy \<open>P\<close>, the longest run first, as the greedy quantifier backtracks.
\<close>

fun atLeast_rest :: "(nat \<Rightarrow> bool) \<Rightarrow> nat \<Rightarrow> jsstring \<Rightarrow> jsstring list" where
  "atLeast_rest P n [] = (if n = 0 then [[]] else [])"
| "atLeast_rest P n (c # cs) =
     (if P c then atLeast_rest P (n - 1) cs else []) @ (if n = 0 then [c # cs] else [])"

text \<open>
  \<open>rmatch ic r s\<close>: every way \<open>r\<close> matches a prefix of \<open>s\<close>, as the list of what is left
  of \<open>s\<close>, in the order the backtracking matcher tries them.
\<close>

fun rmatch :: "bool \<Rightarrow> rx \<Rightarrow> jsstring \<Rightarrow> jsstring list" where
  "rmatch ic Eps s = [s]"
| "rmatch ic (One a) s =
     (case s of [] \<Rightarrow> [] | c # cs \<Rightarrow> if atom_matches ic a c then [cs] else [])"
| "rmatch ic (AtLeast n a) s = atLeast_rest (atom_matches ic a) n s"
| "rmatch ic (Opt r) s = rmatch ic r s @ [s]"
| "rmatch ic (Cat r1 r2) s = concat (map (rmatch ic r2) (rmatch ic r1 s))"
| "rmatch ic (Alt r1 r2) s = rmatch ic r1 s @ rmatch ic r2 s"

text \<open>\<open>re.test(s)\<close> of a regular expression without the flags \<open>g\<close> and \<open>y\<close>: a match
  may start at any index, the end of the string included.\<close>

record regexp =
  pattern :: rx
  ignoreCase :: bool

fun search :: "bool \<Rightarrow> rx \<Rightarrow> jsstring \<Rightarrow> bool" where
  "search ic r [] = (if rmatch ic r [] = [] then False else True)"
| "search ic r (c # cs) = (if rmatch ic r (c # cs) = [] then search ic r cs else True)"

definition test :: "regexp \<Rightarrow> jsstring \<Rightarrow> bool" where
  "test re s = search (ignoreCase re) (pattern re) s"

text \<open>A literal word and an alternation of several branches.\<close>

definition lit :: "jsstring \<Rightarrow> rx" where
  "lit w = foldr (\<lambda>c r. Cat (One (Chr c)) r) w Eps"

primrec alts :: "rx \<Rightarrow> rx list \<Rightarrow> rx" where
  "alts r [] = r"
| "alts r (x # xs) = Alt r (alts x xs)"

section \<open>The patterns of \<open>parseCardText\<close>\<close>

text \<open>\<^verbatim>\<open>/\S+@\S+\.\S+/\<close>\<close>

definition emailRe :: regexp where
  "emailRe = \<lparr> pattern =
       Cat (AtLeast 1 NonSpace) (Cat (One (Chr 64)) (Cat (AtLeast 1 NonSpace)
         (Cat (One (Chr 46)) (AtLeast 1 NonSpace)))),
     ignoreCase = False \<rparr>"

text \<open>\<^verbatim>\<open>/(\+?\d[\d\s\-()]{6,})/\<close>\<close>

definition phoneRe :: regexp where
  "phoneRe = \<lparr> pattern =
       Cat (Opt (One (Chr 43))) (Cat (One Digit)
         (AtLeast 6 (AnyOf [Digit, Space, Chr 45, Chr 40, Chr 41]))),
     ignoreCase = False \<rparr>"

text \<open>\<^verbatim>\<open>/(www\.|https?:\/\/)/i\<close>\<close>

definition websiteRe :: regexp where
  "websiteRe = \<lparr> pattern =
       Alt (lit (js ''www.''))
           (Cat (lit (js ''http'')) (Cat (Opt (One (Chr 115))) (lit (js ''://'')))),
     ignoreCase = True \<rparr>"

text \<open>The role titles, as the regular expression of the name filter and as the list
  \<open>COMPANY_BLACKLIST\<close>; the first title is \<open>gesch\<close>, U+00E4 (228), \<open>ftsf\<close>,
  U+00FC (252), \<open>hrer\<close>.\<close>

definition COMPANY_BLACKLIST :: "jsstring list" where
  "COMPANY_BLACKLIST =
     [js ''gesch'' @ 228 # js ''ftsf'' @ 252 # js ''hrer'', js ''ceo'', js ''manager'',
      js ''director'', js ''founder'', js ''owner'', js ''sales'', js ''marketing'']"

definition roleRe :: regexp where
  "roleRe = \<lparr> pattern =
       alts (lit (js ''gesch'' @ 228 # js ''ftsf'' @ 252 # js ''hrer''))
         [lit (js ''ceo''), lit (js ''manager''), lit (js ''director''), lit (js ''founder''),
          lit (js ''owner''), lit (js ''sales''), lit (js ''marketing'')],
     ignoreCase = True \<rparr>"

text \<open>The address words; the sharp s of the first is U+00DF (223), the u with diaeresis
  of the eighth is U+00FC (252).\<close>

definition addressRe :: regexp where
  "addressRe = \<lparr> pattern =
       alts (lit (js ''stra'' @ 223 # js ''e''))
         [lit (js ''str.''), lit (js ''platz''), lit (js ''road''), lit (js ''street''),
          lit (js ''ave''), lit (js ''blvd''), lit (109 # 252 # js ''nster''),
          lit (js ''berlin''), lit (js ''deutschland''), lit (js ''germany'')],
     ignoreCase = True \<rparr>"

section \<open>\<open>parseCardText\<close>\<close>

text \<open>The trimmed, non-empty lines of the text.\<close>

definition rawLines :: "jsstring \<Rightarrow> jsstring list" where
  "rawLines text = filter (\<lambda>l. l \<noteq> []) (map trim (splitOn 10 text))"

text \<open>\<open>lines.find(p) || ""\<close> and \<open>xs[i] || ""\<close>\<close>

definition findOrEmpty :: "(jsstring \<Rightarrow> bool) \<Rightarrow> jsstring list \<Rightarrow> jsstring" where
  "findOrEmpty p ls = (case find p ls of None \<Rightarrow> [] | Some l \<Rightarrow> l)"

definition atOrEmpty :: "jsstring list \<Rightarrow> nat \<Rightarrow> jsstring" where
  "atOrEmpty xs i = (if i < length xs then xs ! i else [])"

definition filteredForName :: "jsstring list \<Rightarrow> jsstring list" where
  "filteredForName ls =
     filter (\<lambda>l. \<not> test roleRe l)
       (filter (\<lambda>l. \<not> test phoneRe l)
         (filter (\<lambda>l. \<not> test websiteRe l)
           (filter (\<lambda>l. \<not> test emailRe l) ls)))"

text \<open>The name line and the values of the variables \<open>firstName\<close> and \<open>lastName\<close>
  after the \<open>if\<close> on \<open>parts.length\<close>.\<close>

definition nameLine :: "jsstring list \<Rightarrow> jsstring" where
  "nameLine ls = atOrEmpty (filteredForName ls) 0"

definition nameParts :: "jsstring list \<Rightarrow> jsstring list" where
  "nameParts ls = filter (\<lambda>p. p \<noteq> []) (splitWs (nameLine ls))"

definition names :: "jsstring list \<Rightarrow> jsstring \<times> jsstring" where
  "names ls =
     (let parts = nameParts ls in
      if 2 \<le> length parts then (parts ! 0, join (drop 1 parts))
      else (atOrEmpty (filteredForName ls) 0, atOrEmpty (filteredForName ls) 1))"

text \<open>The callback of the company search.\<close>

definition isCompany :: "jsstring \<Rightarrow> jsstring \<Rightarrow> bool" where
  "isCompany firstName l =
     (let low = toLowerCase l in
      if l = [] then False
      else if firstName \<noteq> [] \<and> includes_js l firstName then False
      else if test emailRe l then False
      else if test websiteRe l then False
      else if test phoneRe l then False
      else if list_ex (\<lambda>b. includes_js low b) COMPANY_BLACKLIST then False
      else if test addressRe l then False
      else True)"

text \<open>
  The result is a JavaScript object: the list of its properties in the order of their
  creation. The argument is \<open>None\<close> when the caller passes \<open>undefined\<close> or \<open>null\<close>.
\<close>

type_synonym jsobject = "(string \<times> jsstring) list"

definition parseCardText :: "jsstring option \<Rightarrow> jsobject" where
  "parseCardText text =
     (case text of
        None \<Rightarrow> []
      | Some t \<Rightarrow>
          if t = [] then []
          else
            let lines = rawLines t;
                email = findOrEmpty (test emailRe) lines;
                phone = findOrEmpty (test phoneRe) lines;
                website = findOrEmpty (test websiteRe) lines;
                (firstName, lastName) = names lines;
                company = findOrEmpty (isCompany firstName) lines
            in [(''firstName'', trim firstName),
                (''lastName'', trim lastName),
                (''company'', trim company),
                (''phone'', trim phone),
                (''email'', trim email),
                (''website'', trim website)])"

text \<open>\<open>o[k]\<close>, \<open>None\<close> for \<open>undefined\<close>.\<close>

definition property :: "jsobject \<Rightarrow> string \<Rightarrow> jsstring option" where
  "property obj k = map_of obj k"

section \<open>Notions of the specification\<close>

text \<open>
  Containment of a word without regard to case, by the case folding of the regular
  expressions: at the start of a string and anywhere in it.
\<close>

fun ciStartsWith :: "jsstring \<Rightarrow> jsstring \<Rightarrow> bool" where
  "ciStartsWith s [] = True"
| "ciStartsWith [] (p # ps) = False"
| "ciStartsWith (c # cs) (p # ps) = (canonicalize c = canonicalize p \<and> ciStartsWith cs ps)"

fun ciIncludes :: "jsstring \<Rightarrow> jsstring \<Rightarrow> bool" where
  "ciIncludes [] w = ciStartsWith [] w"
| "ciIncludes (c # cs) w = (ciStartsWith (c # cs) w \<or> ciIncludes cs w)"

text \<open>
  The website line as the specification words it: a line that contains \<open>www.\<close> or
  starts with \<open>http://\<close> or \<open>https://\<close>.
\<close>

definition spec_websiteLine :: "jsstring \<Rightarrow> bool" where
  "spec_websiteLine l =
     (ciIncludes l (js ''www.'') \<or> ciStartsWith l (js ''http://'')
      \<or> ciStartsWith l (js ''https://''))"

text \<open>A line that contains \<open>www.\<close>, \<open>http://\<close> or \<open>https://\<close> at any index.\<close>

definition websiteLine :: "jsstring \<Rightarrow> bool" where
  "websiteLine l =
     (ciIncludes l (js ''www.'') \<or> ciIncludes l (js ''http://'')
      \<or> ciIncludes l (js ''https://''))"

text \<open>
  The code units of the role titles of \<open>COMPANY_BLACKLIST\<close>: the small ASCII letters,
  U+00E4 and U+00FC.
\<close>

definition titleUnit :: "nat \<Rightarrow> bool" where
  "titleUnit p = ((97 \<le> p \<and> p \<le> 122) \<or> p = 228 \<or> p = 252)"

section \<open>Joined tokens and the line they come from\<close>

text \<open>
  \<open>squeezed a b\<close>: \<open>a\<close> is \<open>b\<close> with every run of white space replaced by one
  space, as \<open>join\<close> after \<open>splitWs\<close> does to a trimmed line.
\<close>

inductive squeezed :: "jsstring \<Rightarrow> jsstring \<Rightarrow> bool" where
  sq_nil: "squeezed [] []"
| sq_char: "\<not> isWhite c \<Longrightarrow> squeezed a b \<Longrightarrow> squeezed (c # a) (c # b)"
| sq_sep: "isWhite w \<Longrightarrow> squeezed a b \<Longrightarrow> squeezed (32 # a) (w # b)"
| sq_more: "isWhite w \<Longrightarrow> squeezed (32 # a) b \<Longrightarrow> squeezed (32 # a) (w # b)"

text \<open>
  The patterns whose matches survive the expansion of a space into a run of white space:
  a single character never matches the space, and a repeated class that matches the space
  matches all white space.
\<close>

fun squeeze_ok :: "bool \<Rightarrow> rx \<Rightarrow> bool" where
  "squeeze_ok ic Eps = True"
| "squeeze_ok ic (One a) = (\<not> atom_matches ic a 32)"
| "squeeze_ok ic (AtLeast n a) =
     (atom_matches ic a 32 \<longrightarrow> (\<forall>w. isWhite w \<longrightarrow> atom_matches ic a w))"
| "squeeze_ok ic (Opt r) = squeeze_ok ic r"
| "squeeze_ok ic (Cat r1 r2) = (squeeze_ok ic r1 \<and> squeeze_ok ic r2)"
| "squeeze_ok ic (Alt r1 r2) = (squeeze_ok ic r1 \<and> squeeze_ok ic r2)"

section \<open>Worked inputs\<close>

text \<open>The text \<open>John Smith / Acme Corp / john@acme.com / +1 555-123-4567 / www.acme.com\<close>;
  the line feed is 10.\<close>

definition john :: jsstring where
  "john = js ''John Smith'' @ 10 # js ''Acme Corp'' @ 10 # js ''john@acme.com'' @ 10 #
          js ''+1 555-123-4567'' @ 10 # js ''www.acme.com''"

text \<open>The text \<open>Jane Doe / CEO / Beispiel GmbH / Musterstrasse 1, Berlin\<close>, its street
  written with the sharp s, U+00DF (223).\<close>

definition jane :: jsstring where
  "jane = js ''Jane Doe'' @ 10 # js ''CEO'' @ 10 # js ''Beispiel GmbH'' @ 10 #
          js ''Musterstra'' @ 223 # js ''e 1, Berlin''"

text \<open>A name on two lines, a link in the middle of a line, and a line that has the form of
  an email address and of a phone number.\<close>

definition acme_widgets :: jsstring where
  "acme_widgets = js ''Acme'' @ 10 # js ''Widgets''"

definition see_link :: jsstring where
  "see_link = js ''see http://a''"

definition email_and_phone :: jsstring where
  "email_and_phone = js ''a@b.c 1234567''"

text \<open>The text \<open>Zed / marketing\<close>, the \<open>k\<close> of its second line written as the Kelvin
  sign, U+212A (8490).\<close>

definition zed_kelvin :: jsstring where
  "zed_kelvin = js ''Zed'' @ 10 # js ''mar'' @ 8490 # js ''eting''"

section \<open>Properties of the string operations\<close>


lemma trim_Nil: "trim [] = []"
  by (simp add: trim_def)

lemma dropWhile_id: "s = [] \<or> \<not> P (hd s) \<Longrightarrow> dropWhile P s = s"
  by (cases s) auto

lemma trim_ends:
  assumes "trim s \<noteq> []"
  shows "\<not> isWhite (hd (trim s))" and "\<not> isWhite (last (trim s))"
proof -
  let ?d = "dropWhile isWhite s"
  let ?e = "dropWhile isWhite (rev ?d)"
  have e: "?e \<noteq> []" using assms by (simp add: trim_def)
  then have "\<not> isWhite (hd ?e)" by (rule hd_dropWhile)
  then show "\<not> isWhite (last (trim s))"
    using e by (simp add: trim_def last_rev)
  have d: "?d \<noteq> []" using e by (metis dropWhile.simps(1) rev.simps(1))
  then have hd: "\<not> isWhite (hd ?d)" by (rule hd_dropWhile)
  obtain k where k: "rev ?d = takeWhile isWhite (rev ?d) @ ?e" by simp
  have "?d = rev ?e @ rev (takeWhile isWhite (rev ?d))"
    by (metis rev_append rev_rev_ident takeWhile_dropWhile_id)
  then have "hd ?d = hd (rev ?e)" using e by (metis hd_append2 rev_is_Nil_conv)
  then show "\<not> isWhite (hd (trim s))" using hd by (simp add: trim_def)
qed

lemma trim_fixed:
  assumes "s = [] \<or> (\<not> isWhite (hd s) \<and> \<not> isWhite (last s))"
  shows "trim s = s"
proof (cases "s = []")
  case True
  then show ?thesis by (simp add: trim_def)
next
  case False
  with assms have h: "\<not> isWhite (hd s)" and l: "\<not> isWhite (last s)" by auto
  have 1: "dropWhile isWhite s = s" using h by (simp add: dropWhile_id)
  have "hd (rev s) = last s" using False by (simp add: hd_rev)
  then have 2: "dropWhile isWhite (rev s) = rev s" using l by (simp add: dropWhile_id)
  show ?thesis by (simp add: trim_def 1 2)
qed

lemma trim_idem: "trim (trim s) = trim s"
  using trim_ends [of s] by (intro trim_fixed) blast

lemma trim_sub: "\<exists>p q. s = p @ trim s @ q"
proof -
  let ?d = "dropWhile isWhite s"
  have 1: "s = takeWhile isWhite s @ ?d" by simp
  have "rev ?d = takeWhile isWhite (rev ?d) @ dropWhile isWhite (rev ?d)" by simp
  then have "?d = trim s @ rev (takeWhile isWhite (rev ?d))"
    unfolding trim_def by (metis rev_append rev_rev_ident)
  with 1 show ?thesis by metis
qed

lemma rawLines_trimmed:
  assumes "l \<in> set (rawLines t)"
  shows "l \<noteq> []" and "\<not> isWhite (hd l)" and "\<not> isWhite (last l)" and "trim l = l"
proof -
  from assms obtain x where x: "l = trim x" and n: "l \<noteq> []"
    by (auto simp: rawLines_def)
  show "l \<noteq> []" by (rule n)
  show "\<not> isWhite (hd l)" "\<not> isWhite (last l)" using trim_ends [of x] x n by auto
  show "trim l = l" by (simp add: x trim_idem)
qed

lemma findOrEmpty_cases:
  "findOrEmpty p ls = [] \<or> (findOrEmpty p ls \<in> set ls \<and> p (findOrEmpty p ls))"
  by (auto simp: findOrEmpty_def find_Some_iff split: option.splits)

lemma trim_findOrEmpty: "trim (findOrEmpty p (rawLines t)) = findOrEmpty p (rawLines t)"
  using findOrEmpty_cases [of p "rawLines t"] by (auto simp: trim_Nil rawLines_trimmed(4))

lemma atLeast_rest_self: "s \<in> set (atLeast_rest P 0 s)"
  by (cases s) auto

lemma atLeast_rest_append:
  "x \<in> set (atLeast_rest P n s) \<Longrightarrow> x @ q \<in> set (atLeast_rest P n (s @ q))"
proof (induction s arbitrary: n)
  case Nil
  then show ?case by (auto simp: atLeast_rest_self split: if_splits)
next
  case (Cons c cs)
  then show ?case by (auto split: if_splits)
qed

lemma rmatch_append:
  "x \<in> set (rmatch ic r s) \<Longrightarrow> x @ q \<in> set (rmatch ic r (s @ q))"
proof (induction r arbitrary: s x)
  case (One a)
  then show ?case by (cases s) (auto split: if_splits)
next
  case (AtLeast n a)
  then show ?case by (simp add: atLeast_rest_append)
next
  case (Cat r1 r2)
  then show ?case by fastforce
qed auto

lemma search_iff: "search ic r s \<longleftrightarrow> (\<exists>p x. s = p @ x \<and> rmatch ic r x \<noteq> [])"
proof (induction s)
  case Nil
  then show ?case by simp
next
  case (Cons c cs)
  show ?case
  proof
    assume "search ic r (c # cs)"
    then consider "rmatch ic r (c # cs) \<noteq> []" | "search ic r cs"
      by (auto split: if_splits)
    then show "\<exists>p x. c # cs = p @ x \<and> rmatch ic r x \<noteq> []"
    proof cases
      case 1
      then show ?thesis by (metis append_Nil)
    next
      case 2
      then obtain p x where "cs = p @ x" "rmatch ic r x \<noteq> []" using Cons.IH by blast
      then show ?thesis by (metis append_Cons)
    qed
  next
    assume "\<exists>p x. c # cs = p @ x \<and> rmatch ic r x \<noteq> []"
    then obtain p x where px: "c # cs = p @ x" "rmatch ic r x \<noteq> []" by blast
    show "search ic r (c # cs)"
    proof (cases p)
      case Nil
      then have "x = c # cs" using px by simp
      then show ?thesis using px(2) by simp
    next
      case (Cons a p')
      then have "cs = p' @ x" using px by simp
      then have "search ic r cs" using Cons.IH px(2) by blast
      then show ?thesis by simp
    qed
  qed
qed

lemma search_sub:
  assumes "search ic r s"
  shows "search ic r (p @ s @ q)"
proof -
  from assms obtain p' x where s: "s = p' @ x" and m: "rmatch ic r x \<noteq> []"
    unfolding search_iff by blast
  then obtain y where "y \<in> set (rmatch ic r x)" by (cases "rmatch ic r x") auto
  then have "y @ q \<in> set (rmatch ic r (x @ q))" by (rule rmatch_append)
  then have "rmatch ic r (x @ q) \<noteq> []" by auto
  moreover have "p @ s @ q = (p @ p') @ (x @ q)" by (simp add: s)
  ultimately show ?thesis unfolding search_iff by blast
qed

lemma test_sub: "test re s \<Longrightarrow> test re (p @ s @ q)"
  by (simp add: test_def search_sub)

lemma test_trim: "test re (trim s) \<Longrightarrow> test re s"
  using trim_sub [of s] test_sub by metis

subsection \<open>Tokens of a trimmed line\<close>

lemma list_all_takeWhile: "list_all P (takeWhile P xs)"
  by (induction xs) auto

lemma squeezed_word: "list_all (\<lambda>c. \<not> isWhite c) w \<Longrightarrow> squeezed x y \<Longrightarrow> squeezed (w @ x) (w @ y)"
  by (induction w) (auto intro: sq_char)

lemma squeezed_run:
  "ws \<noteq> [] \<Longrightarrow> list_all isWhite ws \<Longrightarrow> squeezed x y \<Longrightarrow> squeezed (32 # x) (ws @ y)"
proof (induction ws)
  case Nil
  then show ?case by simp
next
  case (Cons w ws)
  show ?case
  proof (cases "ws = []")
    case True
    then show ?thesis using Cons.prems by (auto intro: sq_sep)
  next
    case False
    then have "squeezed (32 # x) (ws @ y)" using Cons by simp
    then show ?thesis using Cons.prems by (auto intro: sq_more)
  qed
qed

text \<open>The non-empty pieces of a string that starts with a token.\<close>

lemma tokens_single:
  assumes "s \<noteq> []" and "dropWhile (\<lambda>c. \<not> isWhite c) s = []"
  shows "filter (\<lambda>p. p \<noteq> []) (splitWs s) = [s]"
proof -
  have "splitWs s = [s]"
    by (subst splitWs.simps) (simp only: assms(2) list.case)
  then show ?thesis using assms(1) by simp
qed

lemma tokens_cons:
  assumes "s \<noteq> []" and "\<not> isWhite (hd s)"
    and "dropWhile (\<lambda>c. \<not> isWhite c) s = w # rest"
  shows "filter (\<lambda>p. p \<noteq> []) (splitWs s) =
           takeWhile (\<lambda>c. \<not> isWhite c) s #
           filter (\<lambda>p. p \<noteq> []) (splitWs (dropWhile isWhite rest))"
proof -
  have "takeWhile (\<lambda>c. \<not> isWhite c) s \<noteq> []"
    using assms(1,2) by (cases s) auto
  moreover have "splitWs s = takeWhile (\<lambda>c. \<not> isWhite c) s # splitWs (dropWhile isWhite rest)"
    by (subst splitWs.simps) (simp only: assms(3) list.case)
  ultimately show ?thesis by simp
qed

lemma tokens_nonempty:
  assumes "s \<noteq> []" and "\<not> isWhite (hd s)"
  shows "filter (\<lambda>p. p \<noteq> []) (splitWs s) \<noteq> []"
proof (cases "dropWhile (\<lambda>c. \<not> isWhite c) s")
  case Nil
  then show ?thesis using tokens_single [OF assms(1)] by simp
next
  case (Cons w rest)
  then show ?thesis using tokens_cons [OF assms] by simp
qed

text \<open>
  A line without white space at its ends is its first token, then nothing or a run of
  white space and a line of the same kind, whose tokens are the other tokens.
\<close>

lemma dropWhile_keeps_last: "xs \<noteq> [] \<Longrightarrow> \<not> P (last xs) \<Longrightarrow> dropWhile P xs \<noteq> []"
  by (induction xs) (auto split: if_splits)

lemma last_dropWhile: "dropWhile P xs \<noteq> [] \<Longrightarrow> last (dropWhile P xs) = last xs"
  by (induction xs) (auto split: if_splits)

lemma takeWhile_nonempty: "xs \<noteq> [] \<Longrightarrow> P (hd xs) \<Longrightarrow> takeWhile P xs \<noteq> []"
  by (cases xs) auto

lemma line_decompose:
  assumes "s \<noteq> []" and "\<not> isWhite (hd s)" and "\<not> isWhite (last s)"
  shows "(filter (\<lambda>p. p \<noteq> []) (splitWs s) = [s] \<and> list_all (\<lambda>c. \<not> isWhite c) s) \<or>
         (\<exists>a ws s'. s = a @ ws @ s' \<and> a \<noteq> [] \<and> list_all (\<lambda>c. \<not> isWhite c) a \<and>
            ws \<noteq> [] \<and> list_all isWhite ws \<and>
            s' \<noteq> [] \<and> \<not> isWhite (hd s') \<and> \<not> isWhite (last s') \<and> length s' < length s \<and>
            filter (\<lambda>p. p \<noteq> []) (splitWs s) = a # filter (\<lambda>p. p \<noteq> []) (splitWs s'))"
proof -
  define a where "a = takeWhile (\<lambda>c. \<not> isWhite c) s"
  define b where "b = dropWhile (\<lambda>c. \<not> isWhite c) s"
  have sab: "s = a @ b" by (simp add: a_def b_def)
  have a: "a \<noteq> []" unfolding a_def using assms(1,2) by (rule takeWhile_nonempty)
  have alla: "list_all (\<lambda>c. \<not> isWhite c) a"
    unfolding a_def by (rule list_all_takeWhile)
  show ?thesis
  proof (cases b)
    case Nil
    then have "list_all (\<lambda>c. \<not> isWhite c) s" using alla sab by simp
    moreover have "filter (\<lambda>p. p \<noteq> []) (splitWs s) = [s]"
      using assms(1) Nil unfolding b_def by (rule tokens_single)
    ultimately show ?thesis by (intro disjI1 conjI)
  next
    case (Cons w rest)
    define ws where "ws = takeWhile isWhite b"
    define s' where "s' = dropWhile isWhite b"
    have bws: "b = ws @ s'" by (simp add: ws_def s'_def)
    have bne: "b \<noteq> []" by (simp add: Cons)
    have "\<not> (\<lambda>c. \<not> isWhite c) (hd b)"
      using bne unfolding b_def by (rule hd_dropWhile)
    then have hdb: "isWhite (hd b)" by simp
    then have w: "isWhite w" by (simp add: Cons)
    have s'eq: "s' = dropWhile isWhite rest" by (simp add: s'_def Cons w)
    have ws: "ws \<noteq> []" unfolding ws_def using bne hdb by (rule takeWhile_nonempty)
    have allws: "list_all isWhite ws"
      unfolding ws_def by (rule list_all_takeWhile)
    have lastb: "last b = last s" using bne by (simp add: sab)
    then have nl: "\<not> isWhite (last b)" using assms(3) by simp
    have s': "s' \<noteq> []" unfolding s'_def using bne nl by (rule dropWhile_keeps_last)
    have hd': "\<not> isWhite (hd s')" using s' unfolding s'_def by (rule hd_dropWhile)
    have "last s' = last b" using s' unfolding s'_def by (rule last_dropWhile)
    then have last': "\<not> isWhite (last s')" using nl by simp
    have dec: "s = a @ ws @ s'" by (simp add: sab bws)
    have len: "length s' < length s" using a by (simp add: dec)
    have "filter (\<lambda>p. p \<noteq> []) (splitWs s) =
            takeWhile (\<lambda>c. \<not> isWhite c) s #
            filter (\<lambda>p. p \<noteq> []) (splitWs (dropWhile isWhite rest))"
      using assms(1,2) Cons unfolding b_def by (rule tokens_cons)
    then have toks: "filter (\<lambda>p. p \<noteq> []) (splitWs s) = a # filter (\<lambda>p. p \<noteq> []) (splitWs s')"
      by (simp only: s'eq a_def)
    have "s = a @ ws @ s' \<and> a \<noteq> [] \<and> list_all (\<lambda>c. \<not> isWhite c) a \<and>
            ws \<noteq> [] \<and> list_all isWhite ws \<and>
            s' \<noteq> [] \<and> \<not> isWhite (hd s') \<and> \<not> isWhite (last s') \<and> length s' < length s \<and>
            filter (\<lambda>p. p \<noteq> []) (splitWs s) = a # filter (\<lambda>p. p \<noteq> []) (splitWs s')"
      using dec a alla ws allws s' hd' last' len toks by (intro conjI)
    then show ?thesis by (intro disjI2 exI)
  qed
qed

lemma squeezed_join:
  "s = [] \<or> (\<not> isWhite (hd s) \<and> \<not> isWhite (last s)) \<Longrightarrow>
   squeezed (join (filter (\<lambda>p. p \<noteq> []) (splitWs s))) s"
proof (induction s rule: length_induct)
  case (1 s)
  show ?case
  proof (cases "s = []")
    case True
    then show ?thesis by (simp add: splitWs.simps sq_nil)
  next
    case False
    with 1 have h: "s \<noteq> []" "\<not> isWhite (hd s)" "\<not> isWhite (last s)" by auto
    from line_decompose [OF h] show ?thesis
    proof (elim disjE exE conjE)
      assume "filter (\<lambda>p. p \<noteq> []) (splitWs s) = [s]" "list_all (\<lambda>c. \<not> isWhite c) s"
      then show ?thesis using squeezed_word [of s "[]" "[]"] by (simp add: sq_nil)
    next
      fix a ws s'
      assume d: "s = a @ ws @ s'" "a \<noteq> []" "list_all (\<lambda>c. \<not> isWhite c) a" "ws \<noteq> []"
        "list_all isWhite ws" "s' \<noteq> []" "\<not> isWhite (hd s')" "\<not> isWhite (last s')"
        "length s' < length s"
        "filter (\<lambda>p. p \<noteq> []) (splitWs s) = a # filter (\<lambda>p. p \<noteq> []) (splitWs s')"
      let ?ts = "filter (\<lambda>p. p \<noteq> []) (splitWs s')"
      have ih: "squeezed (join ?ts) s'" using 1 d by blast
      have "?ts \<noteq> []" using d by (simp add: tokens_nonempty)
      then obtain t ts where ts: "?ts = t # ts" by (cases ?ts) auto
      have "squeezed (32 # join ?ts) (ws @ s')" using d ih by (simp add: squeezed_run)
      then have "squeezed (a @ 32 # join ?ts) (a @ ws @ s')" using d by (simp add: squeezed_word)
      moreover have "join (a # ?ts) = a @ 32 # join ?ts" by (simp add: ts)
      ultimately show ?thesis using d by simp
    qed
  qed
qed

subsection \<open>Matches in the joined tokens are matches in the line\<close>

lemma isWhite_space: "isWhite 32"
  by (simp add: isWhite_def)

lemma atLeast_rest_mono:
  "x \<in> set (atLeast_rest P n s) \<Longrightarrow> m \<le> n \<Longrightarrow> x \<in> set (atLeast_rest P m s)"
proof (induction s arbitrary: n m)
  case Nil
  then show ?case by (auto split: if_splits)
next
  case (Cons c cs)
  from Cons.prems consider "P c" "x \<in> set (atLeast_rest P (n - 1) cs)" | "n = 0" "x = c # cs"
    by (auto split: if_splits)
  then show ?case
  proof cases
    case 1
    have "m - 1 \<le> n - 1" using Cons.prems(2) by simp
    then have "x \<in> set (atLeast_rest P (m - 1) cs)" using Cons.IH 1(2) by blast
    then show ?thesis using 1(1) by simp
  next
    case 2
    then show ?thesis using Cons.prems(2) by simp
  qed
qed

lemma squeezed_atLeast:
  assumes "squeezed a b" and "P 32 \<longrightarrow> (\<forall>w. isWhite w \<longrightarrow> P w)"
    and "x \<in> set (atLeast_rest P n a)"
  shows "\<exists>y\<in>set (atLeast_rest P n b). squeezed x y"
  using assms(1,3)
proof (induction arbitrary: n x rule: squeezed.induct)
  case sq_nil
  then show ?case by (auto split: if_splits intro: squeezed.sq_nil)
next
  case (sq_char c a b)
  from sq_char.prems consider "P c" "x \<in> set (atLeast_rest P (n - 1) a)" | "n = 0" "x = c # a"
    by (auto split: if_splits)
  then show ?case
  proof cases
    case 1
    then obtain y where "y \<in> set (atLeast_rest P (n - 1) b)" "squeezed x y"
      using sq_char.IH by blast
    then show ?thesis using 1(1) by auto
  next
    case 2
    then show ?thesis using sq_char.hyps by (auto intro: squeezed.sq_char)
  qed
next
  case (sq_sep w a b)
  from sq_sep.prems consider "P 32" "x \<in> set (atLeast_rest P (n - 1) a)" | "n = 0" "x = 32 # a"
    by (auto split: if_splits)
  then show ?case
  proof cases
    case 1
    then obtain y where "y \<in> set (atLeast_rest P (n - 1) b)" "squeezed x y"
      using sq_sep.IH by blast
    moreover have "P w" using 1(1) assms(2) sq_sep.hyps(1) by blast
    ultimately show ?thesis by auto
  next
    case 2
    then show ?thesis using sq_sep.hyps by (auto intro: squeezed.sq_sep)
  qed
next
  case (sq_more w a b)
  show ?case
  proof (cases "P 32")
    case True
    then have pw: "P w" using assms(2) sq_more.hyps(1) by blast
    obtain y where y: "y \<in> set (atLeast_rest P n b)" "squeezed x y"
      using sq_more.IH sq_more.prems by blast
    have "y \<in> set (atLeast_rest P (n - 1) b)"
      using y(1) by (rule atLeast_rest_mono) simp
    then show ?thesis using pw y(2) by auto
  next
    case False
    then have "n = 0" "x = 32 # a" using sq_more.prems by (auto split: if_splits)
    then show ?thesis using sq_more.hyps by (auto intro: squeezed.sq_more)
  qed
qed

lemma squeezed_rmatch:
  "squeezed a b \<Longrightarrow> squeeze_ok ic r \<Longrightarrow> x \<in> set (rmatch ic r a) \<Longrightarrow>
   \<exists>y\<in>set (rmatch ic r b). squeezed x y"
proof (induction r arbitrary: a b x)
  case Eps
  then show ?case by simp
next
  case (One t)
  from One.prems(3) obtain c where a: "a = c # x" and m: "atom_matches ic t c"
    by (cases a) (auto split: if_splits)
  have "c \<noteq> 32" using m One.prems(2) by auto
  with One.prems(1) a obtain b' where "b = c # b'" "squeezed x b'"
    by (auto elim: squeezed.cases)
  then show ?case using m by auto
next
  case (AtLeast n t)
  then show ?case using squeezed_atLeast [of a b "atom_matches ic t" x n] by simp
next
  case (Opt r)
  then show ?case by auto
next
  case (Cat r1 r2)
  from Cat.prems(3) obtain z where z: "z \<in> set (rmatch ic r1 a)" "x \<in> set (rmatch ic r2 z)"
    by auto
  obtain z' where z': "z' \<in> set (rmatch ic r1 b)" "squeezed z z'"
    using Cat.IH(1) [OF Cat.prems(1) _ z(1)] Cat.prems(2) by auto
  obtain y where "y \<in> set (rmatch ic r2 z')" "squeezed x y"
    using Cat.IH(2) [OF z'(2) _ z(2)] Cat.prems(2) by auto
  then show ?case using z'(1) by auto
next
  case (Alt r1 r2)
  then show ?case by fastforce
qed

lemma squeezed_rmatch_nonempty:
  assumes "squeezed a b" and "squeeze_ok ic r" and "rmatch ic r a \<noteq> []"
  shows "rmatch ic r b \<noteq> []"
proof -
  obtain x where "x \<in> set (rmatch ic r a)" using assms(3) by (cases "rmatch ic r a") auto
  then obtain y where "y \<in> set (rmatch ic r b)"
    using squeezed_rmatch [OF assms(1,2)] by blast
  then show ?thesis by auto
qed

lemma search_Cons: "search ic r s \<Longrightarrow> search ic r (c # s)"
  by simp

lemma squeezed_search:
  "squeezed a b \<Longrightarrow> squeeze_ok ic r \<Longrightarrow> search ic r a \<Longrightarrow> search ic r b"
proof (induction rule: squeezed.induct)
  case sq_nil
  then show ?case by simp
next
  case (sq_char c a b)
  show ?case
  proof (cases "rmatch ic r (c # a) = []")
    case True
    then have "search ic r b" using sq_char by simp
    then show ?thesis by (rule search_Cons)
  next
    case False
    have "squeezed (c # a) (c # b)" using sq_char.hyps by (rule squeezed.sq_char)
    then have "rmatch ic r (c # b) \<noteq> []"
      using sq_char.prems(1) False by (rule squeezed_rmatch_nonempty)
    then show ?thesis by simp
  qed
next
  case (sq_sep w a b)
  show ?case
  proof (cases "rmatch ic r (32 # a) = []")
    case True
    then have "search ic r b" using sq_sep by simp
    then show ?thesis by (rule search_Cons)
  next
    case False
    have "squeezed (32 # a) (w # b)" using sq_sep.hyps by (rule squeezed.sq_sep)
    then have "rmatch ic r (w # b) \<noteq> []"
      using sq_sep.prems(1) False by (rule squeezed_rmatch_nonempty)
    then show ?thesis by simp
  qed
next
  case (sq_more w a b)
  then have "search ic r b" by simp
  then show ?case by (rule search_Cons)
qed

lemma squeeze_ok_email: "squeeze_ok (ignoreCase emailRe) (pattern emailRe)"
  by (simp add: emailRe_def isWhite_def)

lemma squeeze_ok_phone: "squeeze_ok (ignoreCase phoneRe) (pattern phoneRe)"
  by (simp add: phoneRe_def isWhite_def isDigit_def)

lemma squeeze_ok_lit: "list_all (\<lambda>p. canonicalize p \<noteq> 32) w \<Longrightarrow> squeeze_ok True (lit w)"
  by (induction w) (auto simp: lit_def canonicalize_def)

lemma squeeze_ok_website: "squeeze_ok (ignoreCase websiteRe) (pattern websiteRe)"
  by (simp add: websiteRe_def squeeze_ok_lit js_def canonicalize_def)

lemma squeeze_ok_role: "squeeze_ok (ignoreCase roleRe) (pattern roleRe)"
  by (simp add: roleRe_def squeeze_ok_lit js_def canonicalize_def)

subsection \<open>The name\<close>

lemma test_squeezed:
  "squeezed a b \<Longrightarrow> squeeze_ok (ignoreCase re) (pattern re) \<Longrightarrow> test re a \<Longrightarrow> test re b"
  unfolding test_def by (rule squeezed_search)

lemma filteredForName_subset: "set (filteredForName ls) \<subseteq> set ls"
  by (auto simp: filteredForName_def)

lemma filteredForName_tests:
  assumes "l \<in> set (filteredForName ls)"
  shows "\<not> test emailRe l" and "\<not> test websiteRe l" and "\<not> test phoneRe l"
    and "\<not> test roleRe l"
  using assms by (auto simp: filteredForName_def)

lemma atOrEmpty_cases: "atOrEmpty xs i = [] \<or> atOrEmpty xs i \<in> set xs"
  by (simp add: atOrEmpty_def)

lemma tokens_Nil: "filter (\<lambda>p. p \<noteq> []) (splitWs []) = []"
  by (simp add: splitWs.simps)

text \<open>The two branches of the \<open>if\<close> on the number of tokens.\<close>

lemma names_cases:
  assumes "\<forall>l\<in>set ls. l \<noteq> [] \<and> \<not> isWhite (hd l) \<and> \<not> isWhite (last l)"
  shows "(names ls = (atOrEmpty (filteredForName ls) 0, atOrEmpty (filteredForName ls) 1) \<and>
          length (nameParts ls) < 2) \<or>
         (\<exists>a ws s'. nameLine ls = a @ ws @ s' \<and> nameLine ls \<in> set (filteredForName ls) \<and>
            s' \<noteq> [] \<and> \<not> isWhite (hd s') \<and> \<not> isWhite (last s') \<and>
            names ls = (a, join (filter (\<lambda>p. p \<noteq> []) (splitWs s'))))"
proof (cases "2 \<le> length (nameParts ls)")
  case False
  then show ?thesis by (simp add: names_def)
next
  case True
  define F where "F = filteredForName ls"
  have "F \<noteq> []"
  proof
    assume "F = []"
    then have "nameParts ls = []"
      by (simp add: nameParts_def nameLine_def atOrEmpty_def F_def tokens_Nil)
    then show False using True by simp
  qed
  then obtain l rest where F: "F = l # rest" by (cases F) auto
  have nl: "nameLine ls = l" by (simp add: nameLine_def atOrEmpty_def F [unfolded F_def])
  have lF: "l \<in> set (filteredForName ls)" using F by (simp add: F_def [symmetric])
  then have "l \<in> set ls" using filteredForName_subset by blast
  then have h: "l \<noteq> []" "\<not> isWhite (hd l)" "\<not> isWhite (last l)" using assms by auto
  have parts: "nameParts ls = filter (\<lambda>p. p \<noteq> []) (splitWs l)"
    by (simp add: nameParts_def nl)
  from line_decompose [OF h] show ?thesis
  proof (elim disjE exE conjE)
    assume "filter (\<lambda>p. p \<noteq> []) (splitWs l) = [l]"
    then show ?thesis using True parts by simp
  next
    fix a ws s'
    assume d: "l = a @ ws @ s'" "s' \<noteq> []" "\<not> isWhite (hd s')" "\<not> isWhite (last s')"
      "filter (\<lambda>p. p \<noteq> []) (splitWs l) = a # filter (\<lambda>p. p \<noteq> []) (splitWs s')"
    have "names ls = (a, join (filter (\<lambda>p. p \<noteq> []) (splitWs s')))"
      using True by (simp add: names_def parts d(5))
    then have "nameLine ls = a @ ws @ s' \<and> nameLine ls \<in> set (filteredForName ls) \<and>
            s' \<noteq> [] \<and> \<not> isWhite (hd s') \<and> \<not> isWhite (last s') \<and>
            names ls = (a, join (filter (\<lambda>p. p \<noteq> []) (splitWs s')))"
      using d lF nl by simp
    then show ?thesis by (intro disjI2 exI)
  qed
qed

lemma names_no_match:
  assumes tr: "\<forall>l\<in>set ls. l \<noteq> [] \<and> \<not> isWhite (hd l) \<and> \<not> isWhite (last l)"
    and ok: "squeeze_ok (ignoreCase re) (pattern re)"
    and filt: "\<forall>l\<in>set (filteredForName ls). \<not> test re l"
    and emp: "\<not> test re []"
  shows "\<not> test re (fst (names ls)) \<and> \<not> test re (snd (names ls))"
proof -
  from names_cases [OF tr] show ?thesis
  proof (elim disjE exE conjE)
    assume n: "names ls = (atOrEmpty (filteredForName ls) 0, atOrEmpty (filteredForName ls) 1)"
    have "\<not> test re (atOrEmpty (filteredForName ls) i)" for i
      using atOrEmpty_cases [of "filteredForName ls" i] filt emp by auto
    then show ?thesis by (simp add: n)
  next
    fix a ws s'
    assume d: "nameLine ls = a @ ws @ s'" "nameLine ls \<in> set (filteredForName ls)"
      "s' \<noteq> []" "\<not> isWhite (hd s')" "\<not> isWhite (last s')"
      "names ls = (a, join (filter (\<lambda>p. p \<noteq> []) (splitWs s')))"
    have no: "\<not> test re (a @ ws @ s')" using d(1,2) filt by auto
    have 1: "\<not> test re a"
    proof
      assume "test re a"
      then have "test re ([] @ a @ (ws @ s'))" by (rule test_sub)
      then show False using no by simp
    qed
    have 2: "\<not> test re (join (filter (\<lambda>p. p \<noteq> []) (splitWs s')))"
    proof
      assume t: "test re (join (filter (\<lambda>p. p \<noteq> []) (splitWs s')))"
      have "squeezed (join (filter (\<lambda>p. p \<noteq> []) (splitWs s'))) s'"
        using d(4,5) by (intro squeezed_join) simp
      then have "test re s'" using ok t by (rule test_squeezed)
      then have "test re ((a @ ws) @ s' @ [])" by (rule test_sub)
      then show False using no by simp
    qed
    show ?thesis using 1 2 by (simp add: d(6))
  qed
qed

lemma rawLines_all_trimmed:
  "\<forall>l\<in>set (rawLines t). l \<noteq> [] \<and> \<not> isWhite (hd l) \<and> \<not> isWhite (last l)"
  using rawLines_trimmed by blast

lemma test_Nil:
  "\<not> test emailRe []" "\<not> test websiteRe []" "\<not> test phoneRe []" "\<not> test roleRe []"
  by (simp_all add: test_def emailRe_def websiteRe_def phoneRe_def roleRe_def lit_def js_def)

lemma names_clean:
  "\<not> test emailRe (fst (names (rawLines t))) \<and> \<not> test emailRe (snd (names (rawLines t)))"
  "\<not> test websiteRe (fst (names (rawLines t))) \<and> \<not> test websiteRe (snd (names (rawLines t)))"
  "\<not> test phoneRe (fst (names (rawLines t))) \<and> \<not> test phoneRe (snd (names (rawLines t)))"
  "\<not> test roleRe (fst (names (rawLines t))) \<and> \<not> test roleRe (snd (names (rawLines t)))"
  using filteredForName_tests
  by (intro names_no_match rawLines_all_trimmed squeeze_ok_email squeeze_ok_website
      squeeze_ok_phone squeeze_ok_role test_Nil ballI; blast)+

text \<open>The properties of the object that \<open>parseCardText\<close> returns for a non-empty text.\<close>

lemma parseCardText_props:
  assumes "t \<noteq> []"
  shows "property (parseCardText (Some t)) ''firstName'' = Some (trim (fst (names (rawLines t))))"
    and "property (parseCardText (Some t)) ''lastName'' = Some (trim (snd (names (rawLines t))))"
    and "property (parseCardText (Some t)) ''company'' =
           Some (findOrEmpty (isCompany (fst (names (rawLines t)))) (rawLines t))"
    and "property (parseCardText (Some t)) ''phone'' = Some (findOrEmpty (test phoneRe) (rawLines t))"
    and "property (parseCardText (Some t)) ''email'' = Some (findOrEmpty (test emailRe) (rawLines t))"
    and "property (parseCardText (Some t)) ''website'' =
           Some (findOrEmpty (test websiteRe) (rawLines t))"
  using assms
  by (simp_all add: parseCardText_def property_def Let_def trim_findOrEmpty case_prod_beta)

lemma parseCardText_empty: "parseCardText None = []" "parseCardText (Some []) = []"
  by (simp_all add: parseCardText_def)

lemma parseCardText_keys:
  "t \<noteq> [] \<Longrightarrow> map fst (parseCardText (Some t)) =
     [''firstName'', ''lastName'', ''company'', ''phone'', ''email'', ''website'']"
  by (simp add: parseCardText_def Let_def case_prod_beta)

subsection \<open>The website pattern\<close>

lemma lit_simps: "lit [] = Eps" "lit (c # w) = Cat (One (Chr c)) (lit w)"
  by (simp_all add: lit_def)

lemma rmatch_lit:
  "rmatch True (lit w) s = (if ciStartsWith s w then [drop (length w) s] else [])"
proof (induction w arbitrary: s)
  case Nil
  then show ?case by (simp add: lit_simps)
next
  case (Cons p w)
  then show ?case by (cases s) (simp_all add: lit_simps)
qed

lemma rmatch_chr:
  "rmatch True (One (Chr p)) s = (if ciStartsWith s [p] then [drop 1 s] else [])"
  by (cases s) simp_all

lemma ciStartsWith_append:
  "ciStartsWith s (p @ q) = (ciStartsWith s p \<and> ciStartsWith (drop (length p) s) q)"
proof (induction p arbitrary: s)
  case Nil
  then show ?case by simp
next
  case (Cons c p)
  then show ?case by (cases s) (cases q, simp_all)
qed

lemma https_split:
  "js ''http://'' = js ''http'' @ js ''://''"
  "js ''https://'' = js ''http'' @ [115] @ js ''://''"
  by (simp_all add: js_def)

lemma website_at:
  "rmatch True (pattern websiteRe) s \<noteq> [] \<longleftrightarrow>
     ciStartsWith s (js ''www.'') \<or> ciStartsWith s (js ''http://'') \<or>
     ciStartsWith s (js ''https://'')"
proof -
  define d where "d = drop (length (js ''http'')) s"
  have "rmatch True (Cat (Opt (One (Chr 115))) (lit (js ''://''))) d =
      concat (map (rmatch True (lit (js ''://'')))
        ((if ciStartsWith d [115] then [drop 1 d] else []) @ [d]))"
    by (simp only: rmatch.simps(4,5) rmatch_chr)
  then have opt: "rmatch True (Cat (Opt (One (Chr 115))) (lit (js ''://''))) d \<noteq> [] \<longleftrightarrow>
      (ciStartsWith d [115] \<and> ciStartsWith (drop 1 d) (js ''://'')) \<or> ciStartsWith d (js ''://'')"
    by (cases "ciStartsWith d [115]") (simp_all add: rmatch_lit del: rmatch.simps)
  have h1: "ciStartsWith s (js ''http://'') \<longleftrightarrow>
      ciStartsWith s (js ''http'') \<and> ciStartsWith d (js ''://'')"
    unfolding https_split(1) ciStartsWith_append d_def ..
  have h2: "ciStartsWith s (js ''https://'') \<longleftrightarrow>
      ciStartsWith s (js ''http'') \<and> ciStartsWith d [115] \<and> ciStartsWith (drop 1 d) (js ''://'')"
    unfolding https_split(2) ciStartsWith_append d_def by simp
  have "rmatch True (pattern websiteRe) s =
      rmatch True (lit (js ''www.'')) s @
      concat (map (rmatch True (Cat (Opt (One (Chr 115))) (lit (js ''://''))))
        (rmatch True (lit (js ''http'')) s))"
    by (simp only: websiteRe_def regexp.select_convs rmatch.simps(5,6))
  then have "rmatch True (pattern websiteRe) s \<noteq> [] \<longleftrightarrow>
      ciStartsWith s (js ''www.'') \<or>
      (ciStartsWith s (js ''http'') \<and>
         rmatch True (Cat (Opt (One (Chr 115))) (lit (js ''://''))) d \<noteq> [])"
    unfolding d_def
    by (cases "ciStartsWith s (js ''http'')") (simp_all add: rmatch_lit del: rmatch.simps)
  also have "\<dots> \<longleftrightarrow> ciStartsWith s (js ''www.'') \<or> ciStartsWith s (js ''http://'') \<or>
     ciStartsWith s (js ''https://'')"
    unfolding opt h1 h2 by blast
  finally show ?thesis .
qed

lemma search_website: "search True (pattern websiteRe) s = websiteLine s"
proof (induction s)
  case Nil
  have "rmatch True (pattern websiteRe) [] = []"
    using website_at [of "[]"] by (simp add: js_def)
  then show ?case by (simp add: websiteLine_def js_def)
next
  case (Cons c cs)
  show ?case
  proof (cases "rmatch True (pattern websiteRe) (c # cs) = []")
    case True
    then have "\<not> ciStartsWith (c # cs) (js ''www.'')" "\<not> ciStartsWith (c # cs) (js ''http://'')"
      "\<not> ciStartsWith (c # cs) (js ''https://'')"
      using website_at [of "c # cs"] by auto
    then show ?thesis using True Cons by (simp add: websiteLine_def)
  next
    case False
    then have "ciStartsWith (c # cs) (js ''www.'') \<or> ciStartsWith (c # cs) (js ''http://'') \<or>
      ciStartsWith (c # cs) (js ''https://'')"
      using website_at [of "c # cs"] by simp
    then have "websiteLine (c # cs)" by (auto simp: websiteLine_def)
    then show ?thesis using False by simp
  qed
qed

lemma test_website: "test websiteRe = websiteLine"
proof
  fix s
  have "ignoreCase websiteRe = True" by (simp add: websiteRe_def)
  then show "test websiteRe s = websiteLine s" by (simp add: test_def search_website)
qed

subsection \<open>The role titles\<close>

lemma rmatch_alts_lit:
  "rmatch True (alts (lit w) (map lit ws)) s \<noteq> [] \<longleftrightarrow> list_ex (ciStartsWith s) (w # ws)"
proof (induction ws arbitrary: w)
  case Nil
  then show ?case by (simp add: rmatch_lit)
next
  case (Cons x xs)
  have "rmatch True (alts (lit w) (map lit (x # xs))) s =
      rmatch True (lit w) s @ rmatch True (alts (lit x) (map lit xs)) s"
    by simp
  then show ?case using Cons.IH [of x] by (simp add: rmatch_lit)
qed

lemma search_alts_lit:
  "search True (alts (lit w) (map lit ws)) s \<longleftrightarrow> list_ex (ciIncludes s) (w # ws)"
proof (induction s)
  case Nil
  show ?case using rmatch_alts_lit [of w ws "[]"] by (auto simp: list_ex_iff)
next
  case (Cons c cs)
  show ?case
    using rmatch_alts_lit [of w ws "c # cs"] Cons
    by (cases "rmatch True (alts (lit w) (map lit ws)) (c # cs) = []")
       (auto simp: list_ex_iff)
qed

lemma test_role: "test roleRe s = list_ex (ciIncludes s) COMPANY_BLACKLIST"
proof -
  have "pattern roleRe = alts (lit (hd COMPANY_BLACKLIST)) (map lit (tl COMPANY_BLACKLIST))"
    and "ignoreCase roleRe = True"
    and "COMPANY_BLACKLIST = hd COMPANY_BLACKLIST # tl COMPANY_BLACKLIST"
    by (simp_all add: roleRe_def COMPANY_BLACKLIST_def)
  then show ?thesis
    unfolding test_def using search_alts_lit [of "hd COMPANY_BLACKLIST" "tl COMPANY_BLACKLIST" s]
    by simp
qed

subsection \<open>The two case foldings\<close>

text \<open>
  A role title found in the lower case of a string without the Kelvin sign is found in the
  string by the case folding of the regular expressions: each code unit of the title is
  the lower case of one code unit of the string (U+0130, the one code unit with a lower
  case of two code units, gives an \<open>i\<close> followed by U+0307, and no title ends in \<open>i\<close>).
\<close>

lemma lowerUnit_title:
  assumes "c \<noteq> 8490" and "titleUnit p" and "lowerUnit c = p # r"
  shows "(r = [] \<and> canonicalize c = canonicalize p) \<or> (c = 304 \<and> p = 105 \<and> r = [775])"
proof (cases "65 \<le> c \<and> c \<le> 90")
  case True
  then have t1: "(65 \<le> c \<and> c \<le> 90) = True" by simp
  have "lowerUnit c = [c + 32]" by (simp only: lowerUnit_def t1 if_True)
  then have p: "p = c + 32" "r = []" using assms(3) by simp_all
  have "canonicalize c = c" using True by (simp add: canonicalize_def)
  moreover have "canonicalize (c + 32) = c" using True by (simp add: canonicalize_def)
  ultimately show ?thesis using p by simp
next
  case False
  then have e1: "(65 \<le> c \<and> c \<le> 90) = False" by simp
  show ?thesis
  proof (cases "192 \<le> c \<and> c \<le> 222 \<and> c \<noteq> 215")
    case True
    then have t2: "(192 \<le> c \<and> c \<le> 222 \<and> c \<noteq> 215) = True" by simp
    have "lowerUnit c = [c + 32]" by (simp only: lowerUnit_def e1 t2 if_False if_True)
    then have p: "p = c + 32" "r = []" using assms(3) by simp_all
    have "192 \<le> c" using True by simp
    then have "c = 196 \<or> c = 220" using assms(2) p(1) by (simp add: titleUnit_def)
    then have "canonicalize c = canonicalize (c + 32)"
      by (rule disjE) (simp_all add: canonicalize_def)
    then show ?thesis using p by simp
  next
    case False
    then have e2: "(192 \<le> c \<and> c \<le> 222 \<and> c \<noteq> 215) = False" by simp
    have e3: "(c = 8490) = False" using assms(1) by simp
    have lu: "lowerUnit c =
        (if c = 304 then [105, 775] else if c = 376 then [255] else if c = 7838 then [223]
         else if c = 8491 then [229] else [c])"
      by (simp only: lowerUnit_def e1 e2 e3 if_False)
    show ?thesis
    proof (cases "c = 304")
      case True
      then show ?thesis using assms(3) lu by simp
    next
      case n304: False
      show ?thesis
      proof (cases "c = 376 \<or> c = 7838 \<or> c = 8491")
        case True
        then have "p = 255 \<or> p = 223 \<or> p = 229" using assms(3) lu by auto
        then have "\<not> titleUnit p" by (rule disjE) (auto simp: titleUnit_def)
        then show ?thesis using assms(2) by simp
      next
        case False
        then have "lowerUnit c = [c]" using lu n304 by simp
        then show ?thesis using assms(3) by simp
      qed
    qed
  qed
qed

lemma lowerUnit_nonempty: "\<exists>x r. lowerUnit c = x # r"
  by (simp add: lowerUnit_def)

lemma toLowerCase_Cons: "toLowerCase (c # cs) = lowerUnit c @ toLowerCase cs"
  by (simp add: toLowerCase_def)

lemma startsWith_lower:
  assumes "8490 \<notin> set v" and "list_all titleUnit b" and "b = [] \<or> last b \<noteq> 105"
    and "startsWith (toLowerCase v) b"
  shows "ciStartsWith v b"
  using assms
proof (induction b arbitrary: v)
  case Nil
  then show ?case by simp
next
  case (Cons p ps)
  show ?case
  proof (cases v)
    case Nil
    then show ?thesis using Cons.prems(4) by (simp add: toLowerCase_def)
  next
    case (Cons c cs)
    obtain x r where xr: "lowerUnit c = x # r" using lowerUnit_nonempty by blast
    have sw: "x = p" "startsWith (r @ toLowerCase cs) ps"
      using Cons.prems(4) by (simp_all add: Cons toLowerCase_Cons xr)
    have c: "c \<noteq> 8490" "8490 \<notin> set cs" using Cons.prems(1) Cons by auto
    have tp: "titleUnit p" "list_all titleUnit ps" using Cons.prems(2) by auto
    from lowerUnit_title [OF c(1) tp(1) xr [unfolded sw(1)]] show ?thesis
    proof (elim disjE conjE)
      assume r: "r = []" and cp: "canonicalize c = canonicalize p"
      have "ps = [] \<or> last ps \<noteq> 105" using Cons.prems(3) by (cases ps) auto
      then have "ciStartsWith cs ps"
        using Cons.IH [OF c(2) tp(2)] sw(2) r by simp
      then show ?thesis using cp Cons by simp
    next
      assume h: "c = 304" "p = 105" "r = [775]"
      show ?thesis
      proof (cases ps)
        case Nil
        then show ?thesis using Cons.prems(3) h(2) by simp
      next
        case (Cons q qs)
        then have "q = 775" using sw(2) h(3) by simp
        moreover have "titleUnit q" using tp(2) Cons by simp
        ultimately show ?thesis by (simp add: titleUnit_def)
      qed
    qed
  qed
qed

lemma includes_lower:
  assumes "8490 \<notin> set v" and "list_all titleUnit b" and "b \<noteq> []" and "last b \<noteq> 105"
    and "includes_js (toLowerCase v) b"
  shows "ciIncludes v b"
  using assms(1,5)
proof (induction v)
  case Nil
  then show ?case using assms(3) by (simp add: toLowerCase_def)
next
  case (Cons c cs)
  have c: "c \<noteq> 8490" "8490 \<notin> set cs" using Cons.prems(1) by auto
  obtain x r where xr: "lowerUnit c = x # r" using lowerUnit_nonempty by blast
  obtain p ps where b: "b = p # ps" using assms(3) by (cases b) auto
  have tp: "titleUnit p" using assms(2) b by simp
  have inc: "startsWith (toLowerCase (c # cs)) b \<or> includes_js (r @ toLowerCase cs) b"
    using Cons.prems(2) by (simp add: toLowerCase_Cons xr)
  show ?case
  proof (cases "startsWith (toLowerCase (c # cs)) b")
    case True
    then have "ciStartsWith (c # cs) b"
      using startsWith_lower [OF Cons.prems(1) assms(2)] assms(4) by blast
    then show ?thesis by simp
  next
    case False
    then have rest: "includes_js (r @ toLowerCase cs) b" using inc by blast
    have "includes_js (toLowerCase cs) b"
    proof (cases "r = []")
      case True
      then show ?thesis using rest by simp
    next
      case False
      then have r: "r = [775]" using xr by (auto simp: lowerUnit_def split: if_splits)
      have "p \<noteq> 775" using tp by (auto simp: titleUnit_def)
      then show ?thesis using rest r b by simp
    qed
    then have "ciIncludes cs b" using Cons.IH c(2) by blast
    then show ?thesis by simp
  qed
qed

lemma blacklist_words:
  "list_all (\<lambda>b. list_all titleUnit b \<and> b \<noteq> [] \<and> last b \<noteq> 105) COMPANY_BLACKLIST"
  by (simp add: COMPANY_BLACKLIST_def js_def titleUnit_def)

lemma lower_blacklist:
  assumes "8490 \<notin> set v"
    and "list_ex (\<lambda>b. includes_js (toLowerCase v) b) COMPANY_BLACKLIST"
  shows "list_ex (\<lambda>b. ciIncludes v b) COMPANY_BLACKLIST"
proof -
  from assms(2) obtain b where b: "b \<in> set COMPANY_BLACKLIST" "includes_js (toLowerCase v) b"
    by (auto simp: list_ex_iff)
  then have "list_all titleUnit b" "b \<noteq> []" "last b \<noteq> 105"
    using blacklist_words by (auto simp: list_all_iff)
  then have "ciIncludes v b" using includes_lower [OF assms(1)] b(2) by blast
  then show ?thesis using b(1) by (auto simp: list_ex_iff)
qed

section \<open>Evaluation of the worked inputs\<close>

lemmas rx_eval = test_def emailRe_def phoneRe_def websiteRe_def roleRe_def addressRe_def
  isWhite_def isDigit_def canonicalize_def js_def lit_def

lemmas name_eval = names_def nameParts_def nameLine_def filteredForName_def atOrEmpty_def
  splitWs.simps

lemmas company_eval = findOrEmpty_def isCompany_def toLowerCase_def lowerUnit_def
  COMPANY_BLACKLIST_def

lemma john_lines:
  "rawLines john = [js ''John Smith'', js ''Acme Corp'', js ''john@acme.com'',
     js ''+1 555-123-4567'', js ''www.acme.com'']"
  by (simp add: john_def rawLines_def trim_def isWhite_def js_def)

lemma john_names:
  "names [js ''John Smith'', js ''Acme Corp'', js ''john@acme.com'',
     js ''+1 555-123-4567'', js ''www.acme.com''] = (js ''John'', js ''Smith'')"
  by (simp add: name_eval rx_eval)

lemma john_email:
  "findOrEmpty (test emailRe) [js ''John Smith'', js ''Acme Corp'', js ''john@acme.com'',
     js ''+1 555-123-4567'', js ''www.acme.com''] = js ''john@acme.com''"
  by (simp add: findOrEmpty_def rx_eval)

lemma john_phone:
  "findOrEmpty (test phoneRe) [js ''John Smith'', js ''Acme Corp'', js ''john@acme.com'',
     js ''+1 555-123-4567'', js ''www.acme.com''] = js ''+1 555-123-4567''"
  by (simp add: findOrEmpty_def rx_eval)

lemma john_website:
  "findOrEmpty (test websiteRe) [js ''John Smith'', js ''Acme Corp'', js ''john@acme.com'',
     js ''+1 555-123-4567'', js ''www.acme.com''] = js ''www.acme.com''"
  by (simp add: findOrEmpty_def rx_eval)

lemma john_company:
  "findOrEmpty (isCompany (js ''John'')) [js ''John Smith'', js ''Acme Corp'', js ''john@acme.com'',
     js ''+1 555-123-4567'', js ''www.acme.com''] = js ''Acme Corp''"
  by (simp add: company_eval rx_eval)

lemma john_nonempty: "john \<noteq> []"
  by (simp add: john_def js_def)

lemma jane_nonempty: "jane \<noteq> []"
  by (simp add: jane_def js_def)

lemma jane_lines:
  "rawLines jane = [js ''Jane Doe'', js ''CEO'', js ''Beispiel GmbH'',
     js ''Musterstra'' @ 223 # js ''e 1, Berlin'']"
  by (simp add: jane_def rawLines_def trim_def isWhite_def js_def)

lemma jane_filtered:
  "filteredForName [js ''Jane Doe'', js ''CEO'', js ''Beispiel GmbH'',
     js ''Musterstra'' @ 223 # js ''e 1, Berlin''] =
   [js ''Jane Doe'', js ''Beispiel GmbH'', js ''Musterstra'' @ 223 # js ''e 1, Berlin'']"
  by (simp add: filteredForName_def rx_eval)

lemma jane_names:
  "names [js ''Jane Doe'', js ''CEO'', js ''Beispiel GmbH'',
     js ''Musterstra'' @ 223 # js ''e 1, Berlin''] = (js ''Jane'', js ''Doe'')"
  by (simp add: names_def nameParts_def nameLine_def jane_filtered atOrEmpty_def)
     (simp add: splitWs.simps js_def isWhite_def)

lemma jane_not_company:
  "\<not> isCompany (js ''Jane'') (js ''Jane Doe'')" "\<not> isCompany (js ''Jane'') (js ''CEO'')"
  by (simp_all add: company_eval rx_eval)

lemma jane_company: "isCompany (js ''Jane'') (js ''Beispiel GmbH'')"
  by (simp add: company_eval rx_eval)

lemma jane_trim:
  "trim (js ''Jane'') = js ''Jane''" "trim (js ''Doe'') = js ''Doe''"
  by (simp_all add: trim_def isWhite_def js_def)

lemma acme_widgets_nonempty: "acme_widgets \<noteq> []"
  by (simp add: acme_widgets_def js_def)

lemma acme_widgets_lines: "rawLines acme_widgets = [js ''Acme'', js ''Widgets'']"
  by (simp add: acme_widgets_def rawLines_def trim_def isWhite_def js_def)

lemma acme_widgets_filtered: "filteredForName [js ''Acme'', js ''Widgets''] = [js ''Acme'', js ''Widgets'']"
  by (simp add: filteredForName_def rx_eval)

lemma acme_widgets_parts: "nameParts [js ''Acme'', js ''Widgets''] = [js ''Acme'']"
  by (simp add: nameParts_def nameLine_def atOrEmpty_def acme_widgets_filtered)
     (simp add: splitWs.simps js_def isWhite_def)

lemma see_link_nonempty: "see_link \<noteq> []"
  by (simp add: see_link_def js_def)

lemma see_link_lines: "rawLines see_link = [js ''see http://a'']"
  by (simp add: see_link_def rawLines_def trim_def isWhite_def js_def)

lemma see_link_website: "websiteLine (js ''see http://a'')"
  by (simp add: websiteLine_def js_def canonicalize_def)

lemma see_link_spec: "\<not> spec_websiteLine (js ''see http://a'')"
  by (simp add: spec_websiteLine_def js_def canonicalize_def)

lemma email_and_phone_nonempty: "email_and_phone \<noteq> []"
  by (simp add: email_and_phone_def js_def)

lemma email_and_phone_lines: "rawLines email_and_phone = [js ''a@b.c 1234567'']"
  by (simp add: email_and_phone_def rawLines_def trim_def isWhite_def js_def)

lemma email_and_phone_tests:
  "test emailRe (js ''a@b.c 1234567'')" "test phoneRe (js ''a@b.c 1234567'')"
  by (simp_all add: rx_eval)

text \<open>
  The name filter and the company search do not fold case alike: with the Kelvin sign
  U+212A (8490) for its \<open>k\<close>, the word \<open>marketing\<close> passes the regular expression of the
  name filter, and its lower case is in the list of the company search.
\<close>

lemma kelvin_sign:
  "\<not> test roleRe (js ''mar'' @ 8490 # js ''eting'') \<and>
   list_ex (\<lambda>b. includes_js (toLowerCase (js ''mar'' @ 8490 # js ''eting'')) b) COMPANY_BLACKLIST"
  by (simp add: rx_eval toLowerCase_def lowerUnit_def COMPANY_BLACKLIST_def)

lemma zed_kelvin_nonempty: "zed_kelvin \<noteq> []"
  by (simp add: zed_kelvin_def js_def)

lemma zed_kelvin_lines: "rawLines zed_kelvin = [js ''Zed'', js ''mar'' @ 8490 # js ''eting'']"
  by (simp add: zed_kelvin_def rawLines_def trim_def isWhite_def js_def)

lemma zed_kelvin_filtered:
  "filteredForName [js ''Zed'', js ''mar'' @ 8490 # js ''eting''] =
     [js ''Zed'', js ''mar'' @ 8490 # js ''eting'']"
  by (simp add: filteredForName_def rx_eval)

lemma zed_kelvin_parts:
  "nameParts [js ''Zed'', js ''mar'' @ 8490 # js ''eting''] = [js ''Zed'']"
  by (simp add: nameParts_def nameLine_def atOrEmpty_def zed_kelvin_filtered)
     (simp add: splitWs.simps js_def isWhite_def)

lemma zed_kelvin_names:
  "names [js ''Zed'', js ''mar'' @ 8490 # js ''eting''] =
     (js ''Zed'', js ''mar'' @ 8490 # js ''eting'')"
  by (simp add: names_def zed_kelvin_parts zed_kelvin_filtered atOrEmpty_def)

lemma zed_kelvin_lastName:
  "property (parseCardText (Some zed_kelvin)) ''lastName'' = Some (js ''mar'' @ 8490 # js ''eting'')"
proof -
  have "trim (js ''mar'' @ 8490 # js ''eting'') = js ''mar'' @ 8490 # js ''eting''"
    by (simp add: trim_def isWhite_def js_def)
  then show ?thesis
    by (simp add: parseCardText_props [OF zed_kelvin_nonempty] zed_kelvin_lines zed_kelvin_names)
qed

section \<open>The claims of the specification\<close>

text \<open>
  C1 (as the code has it). For the text \<open>Jane Doe / CEO / Beispiel GmbH /
  Musterstrasse 1, Berlin\<close> (with the sharp s), \<open>parseCardText\<close> returns firstName \<open>Jane\<close> and lastName
  \<open>Doe\<close>, the company is \<open>Beispiel GmbH\<close>, and the line \<open>CEO\<close> is neither the name line
  nor the company: the name filters and the company search both reject it.
\<close>

theorem parseCardText_jane:
  "property (parseCardText (Some jane)) ''firstName'' = Some (js ''Jane'') \<and>
   property (parseCardText (Some jane)) ''lastName'' = Some (js ''Doe'') \<and>
   property (parseCardText (Some jane)) ''company'' = Some (js ''Beispiel GmbH'') \<and>
   nameLine (rawLines jane) = js ''Jane Doe'' \<and>
   js ''CEO'' \<notin> set (filteredForName (rawLines jane)) \<and>
   \<not> isCompany (js ''Jane'') (js ''CEO'')"
proof -
  have "js ''CEO'' \<notin> set (filteredForName (rawLines jane))"
    by (simp add: jane_lines jane_filtered) (simp add: js_def)
  then show ?thesis
    by (simp add: parseCardText_props [OF jane_nonempty] jane_lines jane_names jane_trim
        findOrEmpty_def jane_not_company jane_company nameLine_def jane_filtered atOrEmpty_def)
qed

text \<open>C1 as stated fails: the company field is not the empty string.\<close>

theorem parseCardText_jane_counterexample:
  "property (parseCardText (Some jane)) ''company'' \<noteq> Some []"
proof -
  have "js ''Beispiel GmbH'' \<noteq> []" by (simp add: js_def)
  then show ?thesis
    by (simp add: parseCardText_props [OF jane_nonempty] jane_lines jane_names
        findOrEmpty_def jane_not_company jane_company)
qed

text \<open>
  C2 (as the code has it). When the text is empty or absent, \<open>parseCardText\<close> returns the
  empty object: none of the six fields is present.
\<close>

theorem parseCardText_no_text:
  "parseCardText None = [] \<and> parseCardText (Some []) = [] \<and>
   property (parseCardText None) k = None \<and> property (parseCardText (Some [])) k = None"
  by (simp add: parseCardText_empty property_def)

text \<open>
  C2 as stated fails: for the empty text the field \<open>firstName\<close> is not the empty string,
  it is absent.
\<close>

theorem parseCardText_no_text_counterexample:
  "property (parseCardText (Some [])) ''firstName'' \<noteq> Some []"
  by (simp add: parseCardText_empty property_def)

text \<open>
  C3 (as the code has it). When the first line left by the name filters is a single token,
  firstName is that token and lastName is the second line left by the name filters, or the
  empty string when there is none.
\<close>

theorem single_token_name:
  assumes "nameParts (rawLines t) = [tok]"
  shows "property (parseCardText (Some t)) ''firstName'' = Some tok \<and>
         property (parseCardText (Some t)) ''lastName'' =
           Some (atOrEmpty (filteredForName (rawLines t)) 1)"
proof -
  define F where "F = filteredForName (rawLines t)"
  have tne: "t \<noteq> []"
  proof
    assume "t = []"
    then have "nameParts (rawLines t) = []"
      by (simp add: rawLines_def trim_def nameParts_def nameLine_def filteredForName_def
          atOrEmpty_def tokens_Nil)
    then show False using assms by simp
  qed
  have "F \<noteq> []"
  proof
    assume "F = []"
    then have "nameParts (rawLines t) = []"
      by (simp add: nameParts_def nameLine_def atOrEmpty_def F_def tokens_Nil)
    then show False using assms by simp
  qed
  then obtain l rest where F: "F = l # rest" by (cases F) auto
  have l: "l \<in> set (rawLines t)"
    using F filteredForName_subset [of "rawLines t"] by (auto simp: F_def)
  have h: "l \<noteq> []" "\<not> isWhite (hd l)" "\<not> isWhite (last l)" "trim l = l"
    using rawLines_trimmed [OF l] by auto
  have parts: "filter (\<lambda>p. p \<noteq> []) (splitWs l) = [tok]"
    using assms by (simp add: nameParts_def nameLine_def atOrEmpty_def F [unfolded F_def])
  have tok: "l = tok"
    using line_decompose [OF h(1-3)]
  proof (elim disjE exE conjE)
    assume "filter (\<lambda>p. p \<noteq> []) (splitWs l) = [l]"
    then show ?thesis using parts by simp
  next
    fix a ws s'
    assume "s' \<noteq> []" "\<not> isWhite (hd s')"
      and "filter (\<lambda>p. p \<noteq> []) (splitWs l) = a # filter (\<lambda>p. p \<noteq> []) (splitWs s')"
    then show ?thesis using parts tokens_nonempty [of s'] by simp
  qed
  have names: "names (rawLines t) = (l, atOrEmpty F 1)"
    using assms by (simp add: names_def atOrEmpty_def F [unfolded F_def] F_def)
  have "atOrEmpty F 1 = [] \<or> atOrEmpty F 1 \<in> set (rawLines t)"
    using atOrEmpty_cases [of F 1] filteredForName_subset [of "rawLines t"] by (auto simp: F_def)
  then have "trim (atOrEmpty F 1) = atOrEmpty F 1"
    using rawLines_trimmed(4) trim_Nil by auto
  moreover have "trim tok = tok" using h(4) tok by simp
  ultimately show ?thesis
    using parseCardText_props(1,2) [OF tne] by (simp add: names tok F_def)
qed

theorem single_token_name_witness:
  "nameParts (rawLines acme_widgets) = [js ''Acme''] \<and>
   property (parseCardText (Some acme_widgets)) ''firstName'' = Some (js ''Acme'') \<and>
   property (parseCardText (Some acme_widgets)) ''lastName'' = Some (js ''Widgets'')"
  using single_token_name [of acme_widgets "js ''Acme''"]
  by (simp add: acme_widgets_lines acme_widgets_parts acme_widgets_filtered atOrEmpty_def)

text \<open>
  C3 as stated fails: the first filtered line of \<open>Acme / Widgets\<close> is the single token
  \<open>Acme\<close>, and lastName is \<open>Widgets\<close>, the line at index 1, not the empty string.
\<close>

theorem single_token_name_counterexample:
  "nameParts (rawLines acme_widgets) = [js ''Acme''] \<and>
   property (parseCardText (Some acme_widgets)) ''lastName'' \<noteq> Some []"
proof -
  have "names [js ''Acme'', js ''Widgets''] = (js ''Acme'', js ''Widgets'')"
    by (simp add: names_def acme_widgets_parts acme_widgets_filtered atOrEmpty_def)
  moreover have "trim (js ''Widgets'') \<noteq> []"
    by (simp add: trim_def isWhite_def js_def)
  ultimately show ?thesis
    by (simp add: parseCardText_props [OF acme_widgets_nonempty] acme_widgets_lines
        acme_widgets_parts)
qed

text \<open>
  C4 (as the code has it). \<open>parseCardText\<close> is a total function: for every non-empty text
  it returns an object with exactly the six fields firstName, lastName, company, phone,
  email and website, each a string, and for the empty text it returns the empty object.
\<close>

theorem parseCardText_fields:
  "map fst (parseCardText (Some t)) =
     (if t = [] then []
      else [''firstName'', ''lastName'', ''company'', ''phone'', ''email'', ''website''])"
  by (simp add: parseCardText_empty parseCardText_keys)

text \<open>C4 as stated fails at the empty text, where the object has no field.\<close>

theorem parseCardText_fields_counterexample:
  "map fst (parseCardText (Some [])) \<noteq>
     [''firstName'', ''lastName'', ''company'', ''phone'', ''email'', ''website'']"
  by (simp add: parseCardText_empty)

text \<open>
  C5 (as the code has it). The website field is the first line that contains \<open>www.\<close>,
  \<open>http://\<close> or \<open>https://\<close> at any index, in any case of the letters, and the empty
  string when there is no such line.
\<close>

theorem website_is_first_link_line:
  "t \<noteq> [] \<Longrightarrow>
   property (parseCardText (Some t)) ''website'' = Some (findOrEmpty websiteLine (rawLines t))"
  by (simp add: parseCardText_props test_website)

theorem website_is_first_link_line_witness:
  "see_link \<noteq> [] \<and>
   property (parseCardText (Some see_link)) ''website'' = Some (js ''see http://a'')"
  using website_is_first_link_line [of see_link]
  by (simp add: see_link_nonempty see_link_lines findOrEmpty_def see_link_website)

text \<open>
  C5 as stated fails: the only line of \<open>see http://a\<close> has \<open>http://\<close> at index 4, so
  it is not a website line in the words of the claim, and it is the website field.
\<close>

theorem website_is_first_link_line_counterexample:
  "property (parseCardText (Some see_link)) ''website'' \<noteq>
     Some (findOrEmpty spec_websiteLine (rawLines see_link))"
proof -
  have "property (parseCardText (Some see_link)) ''website'' = Some (js ''see http://a'')"
    by (simp add: parseCardText_props [OF see_link_nonempty] test_website see_link_lines
        findOrEmpty_def see_link_website)
  moreover have "findOrEmpty spec_websiteLine (rawLines see_link) = []"
    by (simp add: see_link_lines findOrEmpty_def see_link_spec)
  moreover have "js ''see http://a'' \<noteq> []" by (simp add: js_def)
  ultimately show ?thesis by simp
qed

text \<open>
  C6. For the text \<open>John Smith / Acme Corp / john@acme.com / +1 555-123-4567 / www.acme.com\<close>
  (five lines), \<open>parseCardText\<close> returns firstName \<open>John\<close>, lastName \<open>Smith\<close>, company
  \<open>Acme Corp\<close>, email \<open>john@acme.com\<close>, phone \<open>+1 555-123-4567\<close> and website
  \<open>www.acme.com\<close>.
\<close>

theorem parseCardText_john:
  "property (parseCardText (Some john)) ''firstName'' = Some (js ''John'') \<and>
   property (parseCardText (Some john)) ''lastName'' = Some (js ''Smith'') \<and>
   property (parseCardText (Some john)) ''company'' = Some (js ''Acme Corp'') \<and>
   property (parseCardText (Some john)) ''email'' = Some (js ''john@acme.com'') \<and>
   property (parseCardText (Some john)) ''phone'' = Some (js ''+1 555-123-4567'') \<and>
   property (parseCardText (Some john)) ''website'' = Some (js ''www.acme.com'')"
proof -
  have "trim (js ''John'') = js ''John''" "trim (js ''Smith'') = js ''Smith''"
    by (simp_all add: trim_def isWhite_def js_def)
  then show ?thesis
    by (simp add: parseCardText_props [OF john_nonempty] john_lines john_names john_email
        john_phone john_website john_company)
qed

text \<open>
  C7. The email, the phone and the website are each searched in the full list of lines, so
  a line taken as the email is still a candidate for the two other fields: for some text the
  email and the phone are the same line.
\<close>

theorem scans_are_independent:
  "(\<forall>t. t \<noteq> [] \<longrightarrow>
      property (parseCardText (Some t)) ''email'' = Some (findOrEmpty (test emailRe) (rawLines t)) \<and>
      property (parseCardText (Some t)) ''phone'' = Some (findOrEmpty (test phoneRe) (rawLines t)) \<and>
      property (parseCardText (Some t)) ''website'' =
        Some (findOrEmpty (test websiteRe) (rawLines t))) \<and>
   (\<exists>t l. l \<noteq> [] \<and> property (parseCardText (Some t)) ''email'' = Some l \<and>
      property (parseCardText (Some t)) ''phone'' = Some l)"
proof (intro conjI allI impI)
  have "js ''a@b.c 1234567'' \<noteq> []" by (simp add: js_def)
  moreover have "property (parseCardText (Some email_and_phone)) ''email'' = Some (js ''a@b.c 1234567'')"
    "property (parseCardText (Some email_and_phone)) ''phone'' = Some (js ''a@b.c 1234567'')"
    by (simp_all add: parseCardText_props [OF email_and_phone_nonempty] email_and_phone_lines
        findOrEmpty_def email_and_phone_tests)
  ultimately show "\<exists>t l. l \<noteq> [] \<and> property (parseCardText (Some t)) ''email'' = Some l \<and>
      property (parseCardText (Some t)) ''phone'' = Some l"
    by blast
qed (simp_all add: parseCardText_props)

theorem scans_are_independent_witness:
  "property (parseCardText (Some email_and_phone)) ''email'' = Some (js ''a@b.c 1234567'') \<and>
   property (parseCardText (Some email_and_phone)) ''phone'' = Some (js ''a@b.c 1234567'') \<and>
   property (parseCardText (Some email_and_phone)) ''website'' = Some []"
proof -
  have "\<not> test websiteRe (js ''a@b.c 1234567'')" by (simp add: rx_eval)
  then show ?thesis
    using scans_are_independent email_and_phone_nonempty
    by (simp add: email_and_phone_lines findOrEmpty_def email_and_phone_tests)
qed

text \<open>
  C8. \<open>parseCardText\<close> is deterministic: two calls on the same text return identical
  objects. The function reads nothing but its argument (no variable of the module, no
  regular expression with the flag \<open>g\<close>, whose \<open>lastIndex\<close> would carry state from one
  call to the next), which is why it is embedded as a function of the text alone.
\<close>

theorem parseCardText_deterministic:
  "text1 = text2 \<Longrightarrow> parseCardText text1 = parseCardText text2"
  by simp

theorem parseCardText_deterministic_witness:
  "Some john = Some john \<and> parseCardText (Some john) = parseCardText (Some john)"
  using parseCardText_deterministic [of "Some john" "Some john"] by simp

text \<open>
  C9. Whenever the email, phone, website or company field is not empty, it is a whole
  trimmed line of the text, an element of \<open>rawLines\<close>.
\<close>

theorem field_is_line:
  assumes "property (parseCardText text) k = Some v"
    and "k \<in> {''email'', ''phone'', ''website'', ''company''}"
    and "v \<noteq> []"
  shows "\<exists>t. text = Some t \<and> v \<in> set (rawLines t)"
proof -
  from assms(1) obtain t where t: "text = Some t" "t \<noteq> []"
    by (cases "text") (auto simp: parseCardText_def property_def split: if_splits)
  from assms(2) consider "k = ''email''" | "k = ''phone''" | "k = ''website''" | "k = ''company''"
    by auto
  then obtain p where "v = findOrEmpty p (rawLines t)"
    using assms(1) parseCardText_props [OF t(2)] unfolding t(1) by cases auto
  then have "v \<in> set (rawLines t)"
    using findOrEmpty_cases [of p "rawLines t"] assms(3) by auto
  then show ?thesis using t(1) by blast
qed

theorem field_is_line_witness:
  "\<exists>t. Some john = Some t \<and> js ''+1 555-123-4567'' \<in> set (rawLines t)"
proof -
  have "property (parseCardText (Some john)) ''phone'' = Some (js ''+1 555-123-4567'')"
    by (simp add: parseCardText_props [OF john_nonempty] john_lines john_phone)
  moreover have "js ''+1 555-123-4567'' \<noteq> []" by (simp add: js_def)
  ultimately show ?thesis
    using field_is_line [of "Some john" "''phone''" "js ''+1 555-123-4567''"] by simp
qed

text \<open>
  C10 (as the code has it). The returned firstName and lastName, when not empty, match none
  of the email, website and phone patterns and do not match the role pattern of the name
  filter: they contain no role title under the case folding of the flag \<open>i\<close>. When they
  hold no Kelvin sign, U+212A, they contain no role title after \<open>toLowerCase\<close> either, the
  case folding of the company search.
\<close>

theorem name_matches_no_filter:
  assumes "property (parseCardText text) k = Some v"
    and "k \<in> {''firstName'', ''lastName''}"
    and "v \<noteq> []"
  shows "\<not> test emailRe v \<and> \<not> test websiteRe v \<and> \<not> test phoneRe v \<and>
         \<not> test roleRe v \<and> \<not> list_ex (\<lambda>b. ciIncludes v b) COMPANY_BLACKLIST \<and>
         (8490 \<notin> set v \<longrightarrow>
            \<not> list_ex (\<lambda>b. includes_js (toLowerCase v) b) COMPANY_BLACKLIST)"
proof -
  from assms(1) obtain t where t: "text = Some t" "t \<noteq> []"
    by (cases "text") (auto simp: parseCardText_def property_def split: if_splits)
  from assms(2) consider "k = ''firstName''" | "k = ''lastName''" by auto
  then obtain x where v: "v = trim x"
    and x: "x = fst (names (rawLines t)) \<or> x = snd (names (rawLines t))"
    using assms(1) parseCardText_props(1,2) [OF t(2)] unfolding t(1) by cases auto
  have "\<not> test emailRe x \<and> \<not> test websiteRe x \<and> \<not> test phoneRe x \<and> \<not> test roleRe x"
    using x names_clean [of t] by blast
  then have r: "\<not> test emailRe v \<and> \<not> test websiteRe v \<and> \<not> test phoneRe v \<and> \<not> test roleRe v"
    unfolding v using test_trim by blast
  then have ci: "\<not> list_ex (\<lambda>b. ciIncludes v b) COMPANY_BLACKLIST" by (simp add: test_role)
  then have "8490 \<notin> set v \<longrightarrow> \<not> list_ex (\<lambda>b. includes_js (toLowerCase v) b) COMPANY_BLACKLIST"
    using lower_blacklist [of v] by blast
  then show ?thesis using r ci by blast
qed

theorem name_matches_no_filter_witness:
  "\<not> test emailRe (js ''Smith'') \<and> \<not> test websiteRe (js ''Smith'') \<and>
   \<not> test phoneRe (js ''Smith'') \<and> \<not> test roleRe (js ''Smith'') \<and>
   \<not> list_ex (\<lambda>b. ciIncludes (js ''Smith'') b) COMPANY_BLACKLIST \<and>
   \<not> list_ex (\<lambda>b. includes_js (toLowerCase (js ''Smith'')) b) COMPANY_BLACKLIST"
proof -
  have "trim (js ''Smith'') = js ''Smith''"
    by (simp add: trim_def isWhite_def js_def)
  then have "property (parseCardText (Some john)) ''lastName'' = Some (js ''Smith'')"
    by (simp add: parseCardText_props [OF john_nonempty] john_lines john_names)
  moreover have "js ''Smith'' \<noteq> []" "8490 \<notin> set (js ''Smith'')" by (simp_all add: js_def)
  ultimately show ?thesis
    using name_matches_no_filter [of "Some john" "''lastName''" "js ''Smith''"] by simp
qed

text \<open>
  C10 as stated fails when case is folded as the company search folds it for the same
  titles: for the text \<open>Zed / marketing\<close> with the Kelvin sign for the \<open>k\<close>, lastName is
  the second line, and its lower case contains \<open>marketing\<close>.
\<close>

theorem name_matches_no_filter_counterexample:
  "property (parseCardText (Some zed_kelvin)) ''lastName'' = Some (js ''mar'' @ 8490 # js ''eting'') \<and>
   js ''mar'' @ 8490 # js ''eting'' \<noteq> [] \<and>
   list_ex (\<lambda>b. includes_js (toLowerCase (js ''mar'' @ 8490 # js ''eting'')) b) COMPANY_BLACKLIST"
proof -
  have "js ''mar'' @ 8490 # js ''eting'' \<noteq> []" by simp
  then show ?thesis using zed_kelvin_lastName kelvin_sign by blast
qed

end
